theory Spec2Isabelle
  imports Main "HOL-Library.Product_Lexorder" "HOL-Library.Multiset" "HOL-Library.Sublist"
begin

section \<open>Python values\<close>

text \<open>
  A Python \<open>str\<close> is a sequence of Unicode code points, so a string is a list of
  naturals (one per code point) and \<open>len\<close>, slicing and the regular expressions count
  code points. ASCII literals are written \<open>asc ''...''\<close>; the Hebrew literals of the
  source are given by their code points.
\<close>

type_synonym ustr = "nat list"

definition asc :: "string \<Rightarrow> ustr" where
  "asc s = map of_char s"

text \<open>
  The exceptions the modelled code can raise. \<open>RuntimeError\<close> is the one
  \<open>_send_request\<close> raises itself; \<open>ValueError\<close> covers \<open>json.JSONDecodeError\<close>;
  \<open>RequestError\<close> stands for the exceptions of the \<open>requests\<close> library and
  \<open>OSError\<close> for those of the file system. All of them derive from \<open>Exception\<close>.
\<close>

datatype error =
  RuntimeError | KeyError | TypeError | AttributeError | ValueError | IndexError
  | OSError | RequestError | OtherError

text \<open>
  The values \<open>json.loads\<close> produces. An object is an association list in insertion
  order; a float is kept as mantissa and binary exponent (no arithmetic is done on it).
\<close>

datatype json =
  JNull | JBool bool | JInt int | JFloat int int | JStr ustr
  | JArr "json list" | JObj "(ustr \<times> json) list"


text \<open>\<open>x.get(key, default)\<close>: only a dict has the method.\<close>

fun py_get :: "json \<Rightarrow> ustr \<Rightarrow> json \<Rightarrow> error + json" where
  "py_get (JObj kvs) k d = (case map_of kvs k of None \<Rightarrow> Inr d | Some v \<Rightarrow> Inr v)"
| "py_get _ k d = Inl AttributeError"




fun try_map :: "('a \<Rightarrow> error + 'b) \<Rightarrow> 'a list \<Rightarrow> error + 'b list" where
  "try_map f [] = Inr []"
| "try_map f (x # xs) =
     (case f x of Inl e \<Rightarrow> Inl e
      | Inr y \<Rightarrow> (case try_map f xs of Inl e \<Rightarrow> Inl e | Inr ys \<Rightarrow> Inr (y # ys)))"


section \<open>The group order of \<open>get_course_schedule\<close>\<close>




text \<open>A conversion for the examples: \<open>int\<close> on a JSON integer.\<close>

fun int_of_jint :: "json \<Rightarrow> error + int" where
  "int_of_jint (JInt i) = Inr i"
| "int_of_jint _ = Inl TypeError"


section \<open>Strings and regular expressions\<close>

text \<open>
  The whitespace of \<open>str.strip()\<close> and of \<open>\s\<close> in a \<open>str\<close> pattern
  (\<open>str.isspace\<close>), and the decimal digits of \<open>\d\<close> (Unicode category Nd: blocks
  of ten code points, listed by their first, and the mathematical digits
  U+1D7CE to U+1D7FF), as of Unicode 14.
\<close>

definition is_space :: "nat \<Rightarrow> bool" where
  "is_space c =
     ((9 \<le> c \<and> c \<le> 13) \<or> (28 \<le> c \<and> c \<le> 32) \<or> c = 133 \<or> c = 160 \<or> c = 5760
      \<or> (8192 \<le> c \<and> c \<le> 8202) \<or> c = 8232 \<or> c = 8233 \<or> c = 8239 \<or> c = 8287
      \<or> c = 12288)"

definition nd_starts :: "nat list" where
  "nd_starts =
     [48, 1632, 1776, 1984, 2406, 2534, 2662, 2790, 2918, 3046, 3174, 3302, 3430, 3558,
      3664, 3792, 3872, 4160, 4240, 6112, 6160, 6470, 6608, 6784, 6800, 6992, 7088, 7232,
      7248, 42528, 43216, 43264, 43472, 43504, 43600, 44016, 65296, 66720, 68912, 69734,
      69872, 69942, 70096, 70384, 70736, 70864, 71248, 71360, 71472, 71904, 72016, 72784,
      73040, 73120, 92768, 92864, 93008, 123200, 123632, 125264, 130032]"

definition is_digit :: "nat \<Rightarrow> bool" where
  "is_digit c =
     (list_ex (\<lambda>s. s \<le> c \<and> c < s + 10) nd_starts \<or> (120782 \<le> c \<and> c \<le> 120831))"

text \<open>\<open>s.strip()\<close>, \<open>s.lstrip("0")\<close>, \<open>s.rstrip("\n")\<close> and \<open>s.split(",")\<close>.\<close>

definition py_strip :: "ustr \<Rightarrow> ustr" where
  "py_strip s = rev (dropWhile is_space (rev (dropWhile is_space s)))"


definition py_rstrip_char :: "nat \<Rightarrow> ustr \<Rightarrow> ustr" where
  "py_rstrip_char c s = rev (dropWhile (\<lambda>x. x = c) (rev s))"


text \<open>
  The fragment of Python's \<open>re\<close> syntax the source uses: a literal, a character class,
  concatenation, alternation, the greedy \<open>*\<close> and \<open>+\<close> of a character class, a
  capturing group and \<open>$\<close> (without \<open>re.MULTILINE\<close>: the end of the string, or just
  before a newline that ends it).
\<close>

datatype rx =
  RLit ustr | RCls "nat \<Rightarrow> bool" | RCat rx rx | RAlt rx rx
  | RStar "nat \<Rightarrow> bool" | RPlus "nat \<Rightarrow> bool" | RGrp rx | REnd

fun rcat :: "rx list \<Rightarrow> rx" where
  "rcat [] = RLit []"
| "rcat [r] = r"
| "rcat (r # rs) = RCat r (rcat rs)"

text \<open>
  The backtracking matcher. A state is the groups captured so far and the input that
  is left; \<open>rx_run\<close> lists the states a pattern can reach in the order the backtracking
  search of \<open>re\<close> tries them (alternatives left to right, the greedy repetition longest
  first), so that the head of the list is the match \<open>re\<close> reports.
\<close>

fun star_rests :: "(nat \<Rightarrow> bool) \<Rightarrow> ustr \<Rightarrow> ustr list" where
  "star_rests p [] = [[]]"
| "star_rests p (c # cs) = (if p c then star_rests p cs @ [c # cs] else [c # cs])"

fun rx_run :: "rx \<Rightarrow> ustr list \<times> ustr \<Rightarrow> (ustr list \<times> ustr) list" where
  "rx_run (RLit l) (g, s) = (if prefix l s then [(g, drop (length l) s)] else [])"
| "rx_run (RCls p) (g, s) = (case s of [] \<Rightarrow> [] | c # cs \<Rightarrow> if p c then [(g, cs)] else [])"
| "rx_run (RCat a b) st = concat (map (rx_run b) (rx_run a st))"
| "rx_run (RAlt a b) st = rx_run a st @ rx_run b st"
| "rx_run (RStar p) (g, s) = map (Pair g) (star_rests p s)"
| "rx_run (RPlus p) (g, s) =
     (case s of [] \<Rightarrow> [] | c # cs \<Rightarrow> if p c then map (Pair g) (star_rests p cs) else [])"
| "rx_run (RGrp a) (g, s) =
     map (\<lambda>st. (fst st @ [take (length s - length (snd st)) s], snd st)) (rx_run a (g, s))"
| "rx_run REnd (g, s) = (if s = [] \<or> s = [10] then [(g, s)] else [])"

text \<open>
  \<open>re.match(pattern, s)\<close>: the first match at the start of \<open>s\<close>, as its groups and
  the input after the match, or \<open>None\<close>.
\<close>

definition re_match :: "rx \<Rightarrow> ustr \<Rightarrow> (ustr list \<times> ustr) option" where
  "re_match r s = (case rx_run r ([], s) of [] \<Rightarrow> None | st # sts \<Rightarrow> Some st)"

text \<open>Group \<open>i\<close> of a match (\<open>match.group(i)\<close>, \<open>\i\<close> in a replacement), \<open>i\<close> from 1.\<close>

definition match_group :: "ustr list \<Rightarrow> nat \<Rightarrow> ustr" where
  "match_group g i = (if 0 < i \<and> i \<le> length g then g ! (i - 1) else [])"

text \<open>
  \<open>re.sub(pattern, repl, s)\<close> for a pattern that does not start with \<open>^\<close>: the input
  is scanned from the left, every match is replaced and the scan goes on after it; a
  character no match starts at is copied. After an empty match the scan copies one
  character.
\<close>

function re_sub :: "rx \<Rightarrow> (ustr list \<Rightarrow> ustr) \<Rightarrow> ustr \<Rightarrow> ustr" where
  "re_sub r repl s =
     (case re_match r s of
        None \<Rightarrow> (case s of [] \<Rightarrow> [] | c # cs \<Rightarrow> c # re_sub r repl cs)
      | Some st \<Rightarrow>
          (if length (snd st) < length s then repl (fst st) @ re_sub r repl (snd st)
           else (case s of [] \<Rightarrow> repl (fst st) | c # cs \<Rightarrow> repl (fst st) @ c # re_sub r repl cs)))"
  by pat_completeness auto
termination
  by (relation "measure (\<lambda>(r, repl, s). length s)") auto

text \<open>
  \<open>re.sub("^...", repl, s)\<close> without \<open>re.MULTILINE\<close>: the pattern can only match at
  the start of the string, so at most one match is replaced.
\<close>

definition re_sub_start :: "rx \<Rightarrow> (ustr list \<Rightarrow> ustr) \<Rightarrow> ustr \<Rightarrow> ustr" where
  "re_sub_start r repl s =
     (case re_match r s of None \<Rightarrow> s | Some st \<Rightarrow> repl (fst st) @ snd st)"


section \<open>Points normalization in \<open>get_course_data\<close>\<close>

text \<open>
  Lines 519-522 of technion_fetcher_full.py:
  \<^verbatim>\<open>points = re.sub(r"(\.[1-9]+)0+$", r"\1", points)\<close> and then
  \<^verbatim>\<open>points = re.sub(r"\.0+$", r"", points)\<close>.
\<close>

definition points_rx1 :: rx where
  "points_rx1 =
     rcat [RGrp (RCat (RLit (asc ''.'')) (RPlus (\<lambda>c. 49 \<le> c \<and> c \<le> 57))),
           RPlus (\<lambda>c. c = 48), REnd]"

definition points_rx2 :: rx where
  "points_rx2 = rcat [RLit (asc ''.''), RPlus (\<lambda>c. c = 48), REnd]"

definition format_points :: "ustr \<Rightarrow> ustr" where
  "format_points points =
     re_sub points_rx2 (\<lambda>g. []) (re_sub points_rx1 (\<lambda>g. match_group g 1) points)"

text \<open>
  The ends of a string that the two patterns look for, said directly: a (possibly
  empty) run \<open>d\<close> of the digits 1 to 9, a non-empty run \<open>z\<close> of zeros and the end
  \<open>e\<close> of the string, which is empty or the one newline that \<open>$\<close> skips.
\<close>

definition spec_points_tail :: "ustr \<Rightarrow> ustr \<Rightarrow> ustr \<Rightarrow> bool" where
  "spec_points_tail d z e =
     (list_all (\<lambda>c. 49 \<le> c \<and> c \<le> 57) d \<and> z \<noteq> [] \<and> list_all (\<lambda>c. c = 48) z
      \<and> (e = [] \<or> e = [10]))"

section \<open>\<open>_parse_schedule_text\<close>\<close>




























section \<open>\<open>_extract_prerequisites\<close>\<close>






text \<open>
  The clean-up: \<^verbatim>\<open>re.sub(r"\((\d+)\)", r"\1", prereq)\<close>, then
  \<^verbatim>\<open>re.sub(r"^\(([^()]+)\)$", r"\1", prereq)\<close>, then \<open>strip()\<close>.
\<close>

definition paren_digits_rx :: rx where
  "paren_digits_rx = rcat [RLit (asc ''(''), RGrp (RPlus is_digit), RLit (asc '')'')]"

definition outer_paren_rx :: rx where
  "outer_paren_rx =
     rcat [RLit (asc ''(''), RGrp (RPlus (\<lambda>c. c \<noteq> 40 \<and> c \<noteq> 41)), RLit (asc '')''), REnd]"

definition clean_prereq :: "ustr \<Rightarrow> ustr" where
  "clean_prereq prereq =
     py_strip (re_sub_start outer_paren_rx (\<lambda>g. match_group g 1)
                 (re_sub paren_digits_rx (\<lambda>g. match_group g 1) prereq))"




text \<open>
  What the clean-up may do to a string: delete an opening parenthesis and the closing
  one that follows it when nothing between them is a parenthesis.
\<close>

inductive drop_pair :: "ustr \<Rightarrow> ustr \<Rightarrow> bool" where
  "list_all (\<lambda>c. c \<noteq> 40 \<and> c \<noteq> 41) m \<Longrightarrow> drop_pair (a @ [40] @ m @ [41] @ b) (a @ m @ b)"



section \<open>The environment of the fetcher\<close>

text \<open>
  What the fetcher changes while it runs: the files of the cache directory (path to
  text), the queries posted to the upstream service so far, in order, and the table of
  \<open>functools.cache\<close> on \<open>get_building_name\<close>, keyed by (year, semester, room id).
\<close>

record world =
  files :: "ustr \<Rightarrow> ustr option"
  posted :: "ustr list"
  building_memo :: "int \<times> int \<times> ustr \<Rightarrow> ustr option"

text \<open>
  \<open>CourseInfo\<close> (lines 41-61). The fields that \<open>get_course_data\<close> computes as
  strings are strings; the ones it copies from the upstream record hold whatever value
  was there. \<open>exams\<close> is a dict in insertion order; \<open>course_notes\<close> is the field
  \<open>notes\<close>.
\<close>

record course_info =
  course_number :: ustr
  name :: json
  syllabus :: json
  faculty :: json
  academic_level :: json
  points :: ustr
  responsible :: ustr
  prerequisites :: ustr
  adjoining_courses :: ustr
  no_additional_credit :: ustr
  course_notes :: json
  exams :: "(ustr \<times> ustr) list"
  schedule :: "json list"

text \<open>
  What the fetcher uses and the repository does not define. \<open>http_post\<close> is
  \<open>session.post\<close>: given the queries posted before and the query of this request it
  raises or answers with a status code and a text. \<open>json_loads\<close>, \<open>json_dumps\<close>,
  \<open>sha256_hex\<close>, \<open>urlencode\<close>, \<open>url_quote\<close> (\<open>urllib.parse.quote\<close>, which raises
  for a string that cannot be encoded as UTF-8), \<open>py_str\<close> (the formatting of a value
  in an f-string), \<open>to_int\<close> (\<open>int(...)\<close>) and \<open>strftime_dmy\<close> (the digits of a
  \<open>/Date(ms)/\<close> stamp to \<open>datetime.fromtimestamp(ms / 1000, utc).strftime("%d-%m-%Y")\<close>)
  are the library's. \<open>file_writable\<close> says whether writing a path succeeds.
  Four parts of the repository that no property below depends on are parameters too:
  \<open>extract_adjoining\<close> is \<open>_extract_adjoining_courses\<close> (lines 453-495),
  \<open>group_rows\<close> is the body of the loop over the raw schedule groups in
  \<open>get_course_schedule\<close> (lines 323-421: the rows one group contributes),
  \<open>save_to_json\<close> is the saving of the courses under an output directory for a year
  and a semester (lines 719-722 and 598-635) and \<open>save_to_firestore\<close> the saving to
  the database (lines 637-680).
\<close>

record env =
  http_post :: "ustr list \<Rightarrow> ustr \<Rightarrow> error + int \<times> ustr"
  json_loads :: "ustr \<Rightarrow> error + json"
  json_dumps :: "json \<Rightarrow> ustr"
  sha256_hex :: "ustr \<Rightarrow> ustr"
  urlencode :: "(ustr \<times> ustr) list \<Rightarrow> ustr"
  url_quote :: "ustr \<Rightarrow> error + ustr"
  py_str :: "json \<Rightarrow> ustr"
  to_int :: "json \<Rightarrow> error + int"
  strftime_dmy :: "ustr \<Rightarrow> error + ustr"
  file_writable :: "ustr \<Rightarrow> bool"
  extract_adjoining :: "json \<Rightarrow> error + ustr list"
  group_rows :: "int \<Rightarrow> int \<Rightarrow> ustr \<Rightarrow> json \<Rightarrow> world \<Rightarrow> (error + json list) \<times> world"
  save_to_json :: "course_info list \<Rightarrow> ustr \<Rightarrow> int \<Rightarrow> int \<Rightarrow> world \<Rightarrow> (error + unit) \<times> world"
  save_to_firestore :: "course_info list \<Rightarrow> int \<Rightarrow> int \<Rightarrow> world \<Rightarrow> (error + unit) \<times> world"


section \<open>\<open>_send_request\<close> and \<open>_get_cache_file\<close>\<close>

text \<open>
  \<open>_get_cache_file\<close> (lines 174-178): the first 64 characters of the query with the
  characters \<^verbatim>\<open><>:"/\|?*\<close> replaced by an underscore, an underscore, the first eight
  hexadecimal digits of the SHA-256 of the query, and \<open>.json\<close>, under the cache
  directory.
\<close>

definition unsafe_char :: "nat \<Rightarrow> bool" where
  "unsafe_char c = (c \<in> set [60, 62, 58, 34, 47, 92, 124, 63, 42])"

definition get_cache_file :: "env \<Rightarrow> ustr \<Rightarrow> ustr \<Rightarrow> ustr" where
  "get_cache_file E cache_dir query =
     (let cache_name = take 64 (map (\<lambda>c. if unsafe_char c then 95 else c) query);
          cache_hash = take 8 (sha256_hex E query)
      in cache_dir @ asc ''/'' @ cache_name @ asc ''_'' @ cache_hash @ asc ''.json'')"

text \<open>
  The pieces of the response handling: \<open>text.replace("\r\n", "\n")\<close>,
  \<open>split("\n\n")\<close>, \<open>split("\n", 1)[0]\<close> and the comparison of the result with
  \<^verbatim>\<open>{"d": {"results": []}}\<close>.
\<close>

fun replace_crlf :: "ustr \<Rightarrow> ustr" where
  "replace_crlf [] = []"
| "replace_crlf [c] = [c]"
| "replace_crlf (c # d # r) =
     (if c = 13 \<and> d = 10 then 10 # replace_crlf r else c # replace_crlf (d # r))"

fun split_blank_line :: "ustr \<Rightarrow> ustr list" where
  "split_blank_line [] = [[]]"
| "split_blank_line [c] = [[c]]"
| "split_blank_line (c # d # r) =
     (if c = 10 \<and> d = 10 then [] # split_blank_line r
      else (case split_blank_line (d # r) of [] \<Rightarrow> [[c]] | t # ts \<Rightarrow> (c # t) # ts))"

definition first_line :: "ustr \<Rightarrow> ustr" where
  "first_line s = takeWhile (\<lambda>c. c \<noteq> 10) s"

fun is_empty_results :: "json \<Rightarrow> bool" where
  "is_empty_results (JObj [(k, JObj [(k', JArr [])])]) = (k = asc ''d'' \<and> k' = asc ''results'')"
| "is_empty_results _ = False"

text \<open>
  \<open>_send_request\<close> (lines 115-172). \<open>cache_dir\<close> is \<open>None\<close> when no cache directory is
  configured. With a cache directory, a file for the query is read and parsed and
  nothing is posted. Otherwise the query is posted (and recorded in \<open>posted\<close>); a
  status other than 202, a response that does not split into three chunks and, unless
  \<open>allow_empty\<close>, an empty result raise \<open>RuntimeError\<close>; the result is written to the
  cache file when a cache directory is configured.
\<close>

definition send_request ::
  "env \<Rightarrow> ustr option \<Rightarrow> ustr \<Rightarrow> bool \<Rightarrow> world \<Rightarrow> (error + json) \<times> world" where
  "send_request E cache_dir query allow_empty w =
     (case (case cache_dir of
              None \<Rightarrow> None
            | Some d \<Rightarrow> files w (get_cache_file E d query)) of
        Some content \<Rightarrow> (json_loads E content, w)
      | None \<Rightarrow>
          (let w1 = w\<lparr>posted := posted w @ [query]\<rparr> in
           case http_post E (posted w) query of
             Inl e \<Rightarrow> (Inl e, w1)
           | Inr response \<Rightarrow>
               if fst response \<noteq> 202 then (Inl RuntimeError, w1)
               else
                 (let response_chunks =
                        split_blank_line (py_strip (replace_crlf (snd response)))
                  in if length response_chunks \<noteq> 3 then (Inl RuntimeError, w1)
                     else
                       (case json_loads E (first_line (response_chunks ! 2)) of
                          Inl e \<Rightarrow> (Inl e, w1)
                        | Inr result \<Rightarrow>
                            if \<not> allow_empty \<and> is_empty_results result
                            then (Inl RuntimeError, w1)
                            else
                              (case cache_dir of
                                 None \<Rightarrow> (Inr result, w1)
                               | Some d \<Rightarrow>
                                   if file_writable E (get_cache_file E d query)
                                   then (Inr result,
                                         w1\<lparr>files := (files w1)
                                               (get_cache_file E d query
                                                  \<mapsto> json_dumps E result)\<rparr>)
                                   else (Inl OSError, w1))))))"

text \<open>An environment and a response for the examples.\<close>

definition demo_response :: ustr where
  "demo_response =
     asc ''--batch'' @ [13, 10, 13, 10] @ asc ''HTTP/1.1 200 OK'' @ [13, 10, 13, 10]
     @ asc ''{}'' @ [13, 10] @ asc ''--batch--''"

definition demo_env :: env where
  "demo_env =
     \<lparr> http_post = (\<lambda>before query. Inr (202, demo_response)),
       json_loads = (\<lambda>t. if t = asc ''{}'' then Inr (JObj []) else Inl ValueError),
       json_dumps = (\<lambda>j. if j = JObj [] then asc ''{}'' else []),
       sha256_hex = (\<lambda>q. asc ''0123456789abcdef''),
       urlencode = (\<lambda>ps. concat (map (\<lambda>p. fst p @ asc ''='' @ snd p @ asc ''&'') ps)),
       url_quote = (\<lambda>q. Inr q),
       py_str = (\<lambda>j. case j of JStr t \<Rightarrow> t | _ \<Rightarrow> asc ''?''),
       to_int = int_of_jint,
       strftime_dmy = (\<lambda>ms. Inr (asc ''01-01-2025'')),
       file_writable = (\<lambda>path. True),
       extract_adjoining = (\<lambda>j. Inr []),
       group_rows = (\<lambda>year semester course_no raw_schedule w. (Inr [], w)),
       save_to_json = (\<lambda>courses output_dir year semester w. (Inr (), w)),
       save_to_firestore = (\<lambda>courses year semester w. (Inr (), w)) \<rparr>"

definition empty_world :: world where
  "empty_world = \<lparr> files = (\<lambda>path. None), posted = [], building_memo = (\<lambda>k. None) \<rparr>"

section \<open>\<open>get_building_name\<close>\<close>








text \<open>
  Collapsing whitespace, said directly: every maximal run of whitespace characters
  becomes one space (U+0020).
\<close>

function spec_collapse_ws :: "ustr \<Rightarrow> ustr" where
  "spec_collapse_ws [] = []"
| "spec_collapse_ws (c # cs) =
     (if is_space c then 32 # spec_collapse_ws (dropWhile is_space cs)
      else c # spec_collapse_ws cs)"
  by pat_completeness auto
termination
  by (relation "measure length") (auto simp: length_dropWhile_le less_Suc_eq_le)



section \<open>Facts about sorting\<close>


lemma try_map_nth:
  "try_map f xs = Inr ys \<Longrightarrow> i < length xs \<Longrightarrow> f (xs ! i) = Inr (ys ! i)"
proof (induction xs arbitrary: ys i)
  case Nil
  then show ?case by simp
next
  case (Cons x xs)
  then show ?case by (cases i) (auto split: sum.splits)
qed








section \<open>Facts about the matcher\<close>

lemma set_star_rests: "set (star_rests p s) = {r. \<exists>m. s = m @ r \<and> list_all p m}"
proof (induction s)
  case Nil
  then show ?case by auto
next
  case (Cons c cs)
  show ?case
  proof (cases "p c")
    case True
    have "{r. \<exists>m. c # cs = m @ r \<and> list_all p m} = insert (c # cs) {r. \<exists>m. cs = m @ r \<and> list_all p m}"
      (is "?L = ?R")
    proof
      show "?L \<subseteq> ?R"
      proof
        fix r assume "r \<in> ?L"
        then obtain m where m: "c # cs = m @ r" "list_all p m" by blast
        show "r \<in> ?R"
        proof (cases m)
          case Nil
          then show ?thesis using m by simp
        next
          case (Cons a m')
          then show ?thesis using m by auto
        qed
      qed
      show "?R \<subseteq> ?L"
      proof
        fix r assume "r \<in> ?R"
        then consider "r = c # cs" | m where "cs = m @ r" "list_all p m" by blast
        then show "r \<in> ?L"
        proof cases
          case 1
          then show ?thesis by (auto intro: exI[of _ "[]"])
        next
          case 2
          then show ?thesis using True by (auto intro: exI[of _ "c # m"])
        qed
      qed
    qed
    then show ?thesis using True Cons by simp
  next
    case False
    have "{r. \<exists>m. c # cs = m @ r \<and> list_all p m} = {c # cs}"
    proof -
      have "r = c # cs" if "c # cs = m @ r" "list_all p m" for m r
        using that False by (cases m) auto
      moreover have "\<exists>m. c # cs = m @ (c # cs) \<and> list_all p m" by (auto intro: exI[of _ "[]"])
      ultimately show ?thesis by blast
    qed
    then show ?thesis using False by simp
  qed
qed

lemma in_rx_run_RLit:
  "(g', r) \<in> set (rx_run (RLit l) (g, s)) \<longleftrightarrow> g' = g \<and> s = l @ r"
  by (auto simp: prefix_def)


lemma in_rx_run_RCat:
  "st' \<in> set (rx_run (RCat a b) st) \<longleftrightarrow> (\<exists>m \<in> set (rx_run a st). st' \<in> set (rx_run b m))"
  by auto



lemma in_rx_run_RPlus:
  "(g', r) \<in> set (rx_run (RPlus p) (g, s)) \<longleftrightarrow>
     g' = g \<and> (\<exists>m. m \<noteq> [] \<and> s = m @ r \<and> list_all p m)"
proof (cases s)
  case Nil
  then show ?thesis by auto
next
  case (Cons c cs)
  show ?thesis
  proof (cases "p c")
    case True
    have "(\<exists>m. cs = m @ r \<and> list_all p m) \<longleftrightarrow> (\<exists>m. m \<noteq> [] \<and> c # cs = m @ r \<and> list_all p m)"
    proof
      assume "\<exists>m. cs = m @ r \<and> list_all p m"
      then obtain m where "cs = m @ r" "list_all p m" by blast
      then show "\<exists>m. m \<noteq> [] \<and> c # cs = m @ r \<and> list_all p m"
        using True by (intro exI[of _ "c # m"]) auto
    next
      assume "\<exists>m. m \<noteq> [] \<and> c # cs = m @ r \<and> list_all p m"
      then obtain m where m: "m \<noteq> []" "c # cs = m @ r" "list_all p m" by blast
      then obtain m' where "m = c # m'" by (cases m) auto
      then show "\<exists>m. cs = m @ r \<and> list_all p m" using m by auto
    qed
    then show ?thesis using Cons True by (auto simp: set_star_rests)
  next
    case False
    have "\<not> (\<exists>m. m \<noteq> [] \<and> c # cs = m @ r \<and> list_all p m)"
    proof
      assume "\<exists>m. m \<noteq> [] \<and> c # cs = m @ r \<and> list_all p m"
      then obtain m where m: "m \<noteq> []" "c # cs = m @ r" "list_all p m" by blast
      then obtain m' where "m = c # m'" by (cases m) auto
      then show False using m False by auto
    qed
    then show ?thesis using Cons False by auto
  qed
qed

lemma in_rx_run_RGrp:
  "(g', r) \<in> set (rx_run (RGrp a) (g, s)) \<longleftrightarrow>
     (\<exists>g1. (g1, r) \<in> set (rx_run a (g, s)) \<and> g' = g1 @ [take (length s - length r) s])"
  by (force simp: image_iff)

lemma in_rx_run_REnd:
  "(g', r) \<in> set (rx_run REnd (g, s)) \<longleftrightarrow> g' = g \<and> r = s \<and> (s = [] \<or> s = [10])"
  by auto

lemma re_match_None: "re_match r s = None \<longleftrightarrow> set (rx_run r ([], s)) = {}"
  by (auto simp: re_match_def split: list.splits)

lemma re_match_Some: "re_match r s = Some st \<Longrightarrow> st \<in> set (rx_run r ([], s))"
  by (auto simp: re_match_def split: list.splits)



lemma bex_rx_run:
  "(\<exists>m \<in> set (rx_run a st). P m) \<longleftrightarrow> (\<exists>g r. (g, r) \<in> set (rx_run a st) \<and> P (g, r))"
  by auto





lemma take_app_len: "take (length (d @ r) - length r) (d @ r) = d"
  by simp





lemma takeWhile_stop:
  "list_all p xs \<Longrightarrow> \<not> p c \<Longrightarrow> takeWhile p (xs @ c # r) = xs"
  by (induction xs) auto

lemma stop_unique:
  assumes "xs @ c # r = xs' @ c' # r'" "list_all p xs" "list_all p xs'" "\<not> p c" "\<not> p c'"
  shows "xs = xs' \<and> c = c' \<and> r = r'"
proof -
  have a: "takeWhile p (xs @ c # r) = xs" using assms(2,4) by (rule takeWhile_stop)
  have b: "takeWhile p (xs' @ c' # r') = xs'" using assms(3,5) by (rule takeWhile_stop)
  have "takeWhile p (xs @ c # r) = takeWhile p (xs' @ c' # r')"
    using assms(1) by (rule arg_cong)
  then have "xs = xs'" by (simp only: a b)
  then show ?thesis using assms(1) by simp
qed











section \<open>Points normalization\<close>

lemma in_points_rx1:
  "(g', r) \<in> set (rx_run points_rx1 ([], s)) \<longleftrightarrow>
     (\<exists>d z. d \<noteq> [] \<and> spec_points_tail d z r \<and> s = [46] @ d @ z @ r \<and> g' = [[46] @ d])"
  unfolding points_rx1_def spec_points_tail_def
  apply (simp only: rcat.simps in_rx_run_RCat in_rx_run_RLit in_rx_run_RPlus in_rx_run_RGrp
      in_rx_run_REnd bex_rx_run)
  apply (simp add: asc_def del: rx_run.simps)
  apply (rule iffI)
   apply (elim exE conjE)
   apply (rule_tac x=ma in exI)
   apply (intro conjI)
     apply assumption+
   apply (rule_tac x=m in exI)
   apply simp
  apply (elim exE conjE)
  apply hypsubst
  apply (rule_tac x="z @ r" in exI)
  apply (intro conjI)
    apply (rule_tac x="[]" in exI)
    apply (intro conjI)
     apply (rule_tac x="d @ z @ r" in exI)
     apply simp
    apply simp
   apply (rule_tac x=z in exI)
   apply simp
  apply assumption
  done

lemma in_points_rx2:
  "(g', r) \<in> set (rx_run points_rx2 ([], s)) \<longleftrightarrow>
     (\<exists>z. spec_points_tail [] z r \<and> s = [46] @ z @ r \<and> g' = [])"
  unfolding points_rx2_def spec_points_tail_def
  apply (simp only: rcat.simps in_rx_run_RCat in_rx_run_RLit in_rx_run_RPlus in_rx_run_REnd
      bex_rx_run)
  apply (simp add: asc_def del: rx_run.simps)
  apply (rule iffI)
   apply (elim exE conjE)
   apply (rule_tac x=m in exI)
   apply simp
  apply (elim exE conjE)
  apply hypsubst
  apply simp
  done

lemma re_sub_no_match:
  "(\<And>a b. s = a @ b \<Longrightarrow> re_match r b = None) \<Longrightarrow> re_sub r repl s = s"
proof (induction s)
  case Nil
  then have "re_match r [] = None" by simp
  then show ?case by (subst re_sub.simps) simp
next
  case (Cons c cs)
  have "re_match r (c # cs) = None" using Cons.prems[of "[]" "c # cs"] by simp
  moreover have "re_sub r repl cs = cs"
  proof (rule Cons.IH)
    fix a b assume "cs = a @ b"
    then show "re_match r b = None" using Cons.prems[of "c # a" b] by simp
  qed
  ultimately show ?case by (subst re_sub.simps) simp
qed

lemma re_sub_first_match:
  assumes "\<And>a b. p @ t = a @ b \<Longrightarrow> length a < length p \<Longrightarrow> re_match r b = None"
      and "re_match r t = Some (g, rest)" and "length rest < length t"
  shows "re_sub r repl (p @ t) = p @ repl g @ re_sub r repl rest"
  using assms(1)
proof (induction p)
  case Nil
  show ?case using assms(2,3) by (subst re_sub.simps) simp
next
  case (Cons c cs)
  have "re_match r (c # cs @ t) = None" using Cons.prems[of "[]" "c # cs @ t"] by simp
  moreover have "re_sub r repl (cs @ t) = cs @ repl g @ re_sub r repl rest"
  proof (rule Cons.IH)
    fix a b assume "cs @ t = a @ b" "length a < length cs"
    then show "re_match r b = None" using Cons.prems[of "c # a" b] by simp
  qed
  ultimately show ?case by (subst re_sub.simps) simp
qed

lemma last_dot_unique:
  assumes "x @ 46 # y = x' @ 46 # y'" "(46::nat) \<notin> set y" "(46::nat) \<notin> set y'"
  shows "x = x' \<and> y = y'"
proof -
  have "rev y @ 46 # rev x = rev y' @ 46 # rev x'"
    using arg_cong[OF assms(1), of rev] by simp
  moreover have "list_all (\<lambda>c. c \<noteq> 46) (rev y)" "list_all (\<lambda>c. c \<noteq> 46) (rev y')"
    using assms(2,3) by (auto simp: list_all_iff)
  ultimately have "rev y = rev y' \<and> rev x = rev x'"
    using stop_unique[of "rev y" 46 "rev x" "rev y'" 46 "rev x'" "\<lambda>c. c \<noteq> 46"] by simp
  then show ?thesis by simp
qed

lemma points_tail_no_dot: "spec_points_tail d z e \<Longrightarrow> 46 \<notin> set (d @ z @ e)"
  by (auto simp: spec_points_tail_def list_all_iff)

lemma points_tail_unique:
  assumes "spec_points_tail d z e" "spec_points_tail d' z' e'" "d @ z @ e = d' @ z' @ e'"
  shows "d = d' \<and> z = z' \<and> e = e'"
proof -
  obtain z0 where z: "z = 48 # z0" "list_all (\<lambda>c. c = 48) z0"
    using assms(1) by (cases z) (auto simp: spec_points_tail_def)
  obtain z0' where z': "z' = 48 # z0'" "list_all (\<lambda>c. c = 48) z0'"
    using assms(2) by (cases z') (auto simp: spec_points_tail_def)
  have "d @ 48 # (z0 @ e) = d' @ 48 # (z0' @ e')" using assms(3) z z' by simp
  moreover have "list_all (\<lambda>c. 49 \<le> c \<and> c \<le> 57) d" "list_all (\<lambda>c. 49 \<le> c \<and> c \<le> 57) d'"
    using assms(1,2) by (auto simp: spec_points_tail_def)
  ultimately have d: "d = d'" and r: "z0 @ e = z0' @ e'"
    using stop_unique[of d 48 "z0 @ e" d' 48 "z0' @ e'" "\<lambda>c. 49 \<le> c \<and> c \<le> 57"] by auto
  have e: "e = [] \<or> e = [10]" "e' = [] \<or> e' = [10]"
    using assms(1,2) by (auto simp: spec_points_tail_def)
  have "takeWhile (\<lambda>c. c = 48) (z0 @ e) = z0" "takeWhile (\<lambda>c. c = 48) (z0' @ e') = z0'"
    using z(2) z'(2) e by (auto simp: takeWhile_stop list_all_iff)
  with r have "z0 = z0'" by simp
  with r d z z' show ?thesis by simp
qed

lemma points_rx1_match:
  assumes "d \<noteq> []" "spec_points_tail d z e"
  shows "re_match points_rx1 ([46] @ d @ z @ e) = Some ([[46] @ d], e)"
proof -
  have "([[46] @ d], e) \<in> set (rx_run points_rx1 ([], [46] @ d @ z @ e))"
    using assms by (subst in_points_rx1) blast
  then have "re_match points_rx1 ([46] @ d @ z @ e) \<noteq> None"
    by (auto simp: re_match_None)
  then obtain g r where st: "re_match points_rx1 ([46] @ d @ z @ e) = Some (g, r)" by auto
  from re_match_Some[OF st]
  have "\<exists>d' z'. d' \<noteq> [] \<and> spec_points_tail d' z' r \<and> [46] @ d @ z @ e = [46] @ d' @ z' @ r
          \<and> g = [[46] @ d']"
    by (simp only: in_points_rx1)
  then obtain d' z' where
    w: "spec_points_tail d' z' r" "[46] @ d @ z @ e = [46] @ d' @ z' @ r" "g = [[46] @ d']"
    by blast
  from w(2) have "d @ z @ e = d' @ z' @ r" by simp
  from points_tail_unique[OF assms(2) w(1) this] w(3) st show ?thesis by simp
qed

lemma points_rx2_match:
  assumes "spec_points_tail [] z e"
  shows "re_match points_rx2 ([46] @ z @ e) = Some ([], e)"
proof -
  have "([], e) \<in> set (rx_run points_rx2 ([], [46] @ z @ e))"
    using assms by (subst in_points_rx2) blast
  then have "re_match points_rx2 ([46] @ z @ e) \<noteq> None"
    by (auto simp: re_match_None)
  then obtain g r where st: "re_match points_rx2 ([46] @ z @ e) = Some (g, r)" by auto
  from re_match_Some[OF st]
  have "\<exists>z'. spec_points_tail [] z' r \<and> [46] @ z @ e = [46] @ z' @ r \<and> g = []"
    by (simp only: in_points_rx2)
  then obtain z' where
    w: "spec_points_tail [] z' r" "[46] @ z @ e = [46] @ z' @ r" "g = []"
    by blast
  from w(2) have "[] @ z @ e = [] @ z' @ r" by simp
  from points_tail_unique[OF assms w(1) this] w(3) st show ?thesis by simp
qed

lemma points_rx1_at:
  assumes "re_match points_rx1 b \<noteq> None"
  shows "\<exists>d z e. d \<noteq> [] \<and> spec_points_tail d z e \<and> b = [46] @ d @ z @ e"
proof -
  from assms obtain g r where st: "re_match points_rx1 b = Some (g, r)" by auto
  from re_match_Some[OF st]
  have "\<exists>d z. d \<noteq> [] \<and> spec_points_tail d z r \<and> b = [46] @ d @ z @ r \<and> g = [[46] @ d]"
    by (simp only: in_points_rx1)
  then show ?thesis by blast
qed

lemma points_rx2_at:
  assumes "re_match points_rx2 b \<noteq> None"
  shows "\<exists>z e. spec_points_tail [] z e \<and> b = [46] @ z @ e"
proof -
  from assms obtain g r where st: "re_match points_rx2 b = Some (g, r)" by auto
  from re_match_Some[OF st]
  have "\<exists>z. spec_points_tail [] z r \<and> b = [46] @ z @ r \<and> g = []"
    by (simp only: in_points_rx2)
  then show ?thesis by blast
qed

lemma points_tail_shift:
  "spec_points_tail d z e \<Longrightarrow> x @ [46] @ d @ z @ e = x' @ [46] @ d' @ z' @ e'
   \<Longrightarrow> spec_points_tail d' z' e' \<Longrightarrow> x = x' \<and> d = d' \<and> z = z' \<and> e = e'"
  using last_dot_unique[of x "d @ z @ e" x' "d' @ z' @ e'"]
    points_tail_no_dot[of d z e] points_tail_no_dot[of d' z' e']
    points_tail_unique[of d z e d' z' e']
  by simp

lemma points_sub1_id:
  assumes "\<And>a d z e. d \<noteq> [] \<Longrightarrow> spec_points_tail d z e \<Longrightarrow> s \<noteq> a @ [46] @ d @ z @ e"
  shows "re_sub points_rx1 repl s = s"
proof (rule re_sub_no_match)
  fix a b assume s: "s = a @ b"
  show "re_match points_rx1 b = None"
  proof (rule ccontr)
    assume "re_match points_rx1 b \<noteq> None"
    from points_rx1_at[OF this] s assms show False by blast
  qed
qed

lemma points_sub2_id:
  assumes "\<And>a z e. spec_points_tail [] z e \<Longrightarrow> s \<noteq> a @ [46] @ z @ e"
  shows "re_sub points_rx2 repl s = s"
proof (rule re_sub_no_match)
  fix a b assume s: "s = a @ b"
  show "re_match points_rx2 b = None"
  proof (rule ccontr)
    assume "re_match points_rx2 b \<noteq> None"
    from points_rx2_at[OF this] s assms show False by blast
  qed
qed

lemma points_end_id:
  assumes "e = [] \<or> e = [10]"
  shows "re_sub points_rx1 repl e = e" "re_sub points_rx2 repl' e = e"
proof -
  have nd: "46 \<notin> set e" using assms by auto
  show "re_sub points_rx1 repl e = e"
  proof (rule points_sub1_id)
    fix a d z e' assume "d \<noteq> []" "spec_points_tail d z e'"
    show "e \<noteq> a @ [46] @ d @ z @ e'" using nd by auto
  qed
  show "re_sub points_rx2 repl' e = e"
  proof (rule points_sub2_id)
    fix a z e' assume "spec_points_tail [] z e'"
    show "e \<noteq> a @ [46] @ z @ e'" using nd by auto
  qed
qed

lemma points_sub1_form:
  assumes "d \<noteq> []" "spec_points_tail d z e"
  shows "re_sub points_rx1 (\<lambda>g. match_group g 1) (p @ [46] @ d @ z @ e) = p @ [46] @ d @ e"
proof -
  have e: "e = [] \<or> e = [10]" using assms(2) by (simp add: spec_points_tail_def)
  have "re_sub points_rx1 (\<lambda>g. match_group g 1) (p @ ([46] @ d @ z @ e))
      = p @ match_group [[46] @ d] 1 @ re_sub points_rx1 (\<lambda>g. match_group g 1) e"
  proof (rule re_sub_first_match)
    fix a b assume ab: "p @ [46] @ d @ z @ e = a @ b" "length a < length p"
    show "re_match points_rx1 b = None"
    proof (rule ccontr)
      assume "re_match points_rx1 b \<noteq> None"
      from points_rx1_at[OF this] obtain d' z' e' where
        b: "spec_points_tail d' z' e'" "b = [46] @ d' @ z' @ e'" by blast
      from points_tail_shift[OF assms(2) _ b(1), of p a] ab(1) b(2) have "p = a" by simp
      with ab(2) show False by simp
    qed
  next
    show "re_match points_rx1 ([46] @ d @ z @ e) = Some ([[46] @ d], e)"
      using assms by (rule points_rx1_match)
  next
    show "length e < length ([46] @ d @ z @ e)" by simp
  qed
  then show ?thesis using points_end_id(1)[OF e] by (simp add: match_group_def)
qed

lemma points_sub2_form:
  assumes "spec_points_tail [] z e"
  shows "re_sub points_rx2 (\<lambda>g. []) (p @ [46] @ z @ e) = p @ e"
proof -
  have e: "e = [] \<or> e = [10]" using assms by (simp add: spec_points_tail_def)
  have "re_sub points_rx2 (\<lambda>g. []) (p @ ([46] @ z @ e))
      = p @ [] @ re_sub points_rx2 (\<lambda>g. []) e"
  proof (rule re_sub_first_match)
    fix a b assume ab: "p @ [46] @ z @ e = a @ b" "length a < length p"
    show "re_match points_rx2 b = None"
    proof (rule ccontr)
      assume "re_match points_rx2 b \<noteq> None"
      from points_rx2_at[OF this] obtain z' e' where
        b: "spec_points_tail [] z' e'" "b = [46] @ z' @ e'" by blast
      from points_tail_shift[OF assms _ b(1), of p a] ab(1) b(2) have "p = a" by simp
      with ab(2) show False by simp
    qed
  next
    show "re_match points_rx2 ([46] @ z @ e) = Some ([], e)"
      using assms by (rule points_rx2_match)
  next
    show "length e < length ([46] @ z @ e)" by simp
  qed
  then show ?thesis using points_end_id(2)[OF e] by simp
qed

lemma points_tail_split:
  "spec_points_tail d z e \<Longrightarrow> spec_points_tail [] z e"
  by (simp add: spec_points_tail_def)

lemma format_points_form:
  assumes "spec_points_tail d z e"
  shows "format_points (p @ [46] @ d @ z @ e) = (if d = [] then p @ e else p @ [46] @ d @ e)"
proof (cases "d = []")
  case True
  have "re_sub points_rx1 (\<lambda>g. match_group g 1) (p @ [46] @ z @ e) = p @ [46] @ z @ e"
  proof (rule points_sub1_id)
    fix a d' z' e' assume d': "d' \<noteq> []" "spec_points_tail d' z' e'"
    show "p @ [46] @ z @ e \<noteq> a @ [46] @ d' @ z' @ e'"
    proof
      assume "p @ [46] @ z @ e = a @ [46] @ d' @ z' @ e'"
      then have "p @ [46] @ [] @ z @ e = a @ [46] @ d' @ z' @ e'" by simp
      from points_tail_shift[OF _ this d'(2)] assms True d'(1) show False by simp
    qed
  qed
  then show ?thesis using True assms points_sub2_form[of z e p]
    by (simp add: format_points_def)
next
  case False
  have e: "e = [] \<or> e = [10]" using assms by (simp add: spec_points_tail_def)
  obtain c d0 where d: "d = c # d0" "49 \<le> c" using False assms
    by (cases d) (auto simp: spec_points_tail_def)
  have "re_sub points_rx2 (\<lambda>g. []) (p @ [46] @ d @ e) = p @ [46] @ d @ e"
  proof (rule points_sub2_id)
    fix a z' e' assume z': "spec_points_tail [] z' e'"
    show "p @ [46] @ d @ e \<noteq> a @ [46] @ z' @ e'"
    proof
      assume eq: "p @ [46] @ d @ e = a @ [46] @ z' @ e'"
      have nd: "46 \<notin> set (d @ e)" "46 \<notin> set (z' @ e')"
        using points_tail_no_dot[OF assms] points_tail_no_dot[OF z'] by auto
      from eq have "p @ 46 # (d @ e) = a @ 46 # (z' @ e')" by simp
      from last_dot_unique[OF this nd] have "d @ e = z' @ e'" by simp
      moreover obtain z0 where "z' = 48 # z0" using z'
        by (cases z') (auto simp: spec_points_tail_def)
      ultimately show False using d by simp
    qed
  qed
  then show ?thesis using False assms points_sub1_form[of d z e p]
    by (simp add: format_points_def)
qed

lemma format_points_other:
  assumes "\<And>p d z e. spec_points_tail d z e \<Longrightarrow> s \<noteq> p @ [46] @ d @ z @ e"
  shows "format_points s = s"
proof -
  have "re_sub points_rx1 (\<lambda>g. match_group g 1) s = s"
    by (rule points_sub1_id) (rule assms)
  moreover have "re_sub points_rx2 (\<lambda>g. []) s = s"
  proof (rule points_sub2_id)
    fix a z e assume "spec_points_tail [] z e"
    from assms[OF this, of a] show "s \<noteq> a @ [46] @ z @ e" by simp
  qed
  ultimately show ?thesis by (simp add: format_points_def)
qed

lemma format_points_claimed_examples:
  "format_points (asc ''3.00'') = asc ''3''
   \<and> format_points (asc ''3.50'') = asc ''3.5''
   \<and> format_points (asc ''0.00'') = asc ''0''"
  by (simp add: format_points_def points_rx1_def points_rx2_def re_match_def match_group_def
      asc_def)

lemma no_points_tail_example:
  assumes "spec_points_tail d z e"
  shows "asc ''3.050'' \<noteq> p @ [46] @ d @ z @ e"
proof
  assume "asc ''3.050'' = p @ [46] @ d @ z @ e"
  then have eq: "[51] @ 46 # [48, 53, 48] = p @ 46 # (d @ z @ e)" by (simp add: asc_def)
  have "46 \<notin> set (d @ z @ e)" using assms by (rule points_tail_no_dot)
  from last_dot_unique[OF eq _ this] have dze: "[48, 53, 48] = d @ z @ e" by simp
  have "d = []" using dze assms by (cases d) (auto simp: spec_points_tail_def)
  with dze have ze: "[48, 53, 48] = z @ e" by simp
  obtain z0 where z: "z = 48 # z0" "list_all (\<lambda>c. c = 48) z0" using assms
    by (cases z) (auto simp: spec_points_tail_def)
  with ze have "[53, 48] = z0 @ e" by simp
  then have "z0 = []" using z(2) by (cases z0) auto
  with \<open>[53, 48] = z0 @ e\<close> have "e = [53, 48]" by simp
  then show False using assms by (simp add: spec_points_tail_def)
qed

text \<open>
  Claim C3, as stated, fails: zeros that end the fraction are kept when a zero stands
  between the decimal point and the last digit that is not zero.
\<close>

theorem format_points_inner_zero_counterexample:
  "format_points (asc ''3.050'') = asc ''3.050''
   \<and> format_points (asc ''3.105000'') = asc ''3.105000''"
  by (simp add: format_points_def points_rx1_def points_rx2_def re_match_def match_group_def
      asc_def)

text \<open>
  Claim C3, amended. The two substitutions of \<open>get_course_data\<close> change a string only
  when it ends, up to one final newline \<open>e\<close>, with a decimal point, a run \<open>d\<close> of the
  digits 1 to 9 and a non-empty run \<open>z\<close> of zeros: then the zeros are deleted, and
  the decimal point too when \<open>d\<close> is empty. Every other string is returned as it is.
  So \<open>3.00\<close> becomes \<open>3\<close>, \<open>3.50\<close> becomes \<open>3.5\<close> and \<open>0.00\<close> becomes \<open>0\<close>.
\<close>

theorem format_points_trailing_zeros:
  "(spec_points_tail d z e \<longrightarrow>
      format_points (p @ [46] @ d @ z @ e) = (if d = [] then p @ e else p @ [46] @ d @ e))
   \<and> ((\<forall>p d z e. spec_points_tail d z e \<longrightarrow> s \<noteq> p @ [46] @ d @ z @ e) \<longrightarrow>
      format_points s = s)
   \<and> format_points (asc ''3.00'') = asc ''3''
   \<and> format_points (asc ''3.50'') = asc ''3.5''
   \<and> format_points (asc ''0.00'') = asc ''0''"
proof (intro conjI impI)
  assume "spec_points_tail d z e"
  then show "format_points (p @ [46] @ d @ z @ e) = (if d = [] then p @ e else p @ [46] @ d @ e)"
    by (rule format_points_form)
next
  assume "\<forall>p d z e. spec_points_tail d z e \<longrightarrow> s \<noteq> p @ [46] @ d @ z @ e"
  then show "format_points s = s" by (intro format_points_other) blast
qed (simp_all add: format_points_claimed_examples)

theorem format_points_trailing_zeros_witness:
  "format_points (asc ''12.340'' @ [10]) = asc ''12.34'' @ [10]
   \<and> format_points (asc ''7.000'') = asc ''7''
   \<and> format_points (asc ''3.050'') = asc ''3.050''"
  using format_points_trailing_zeros [of "asc ''34''" "asc ''0''" "[10]" "asc ''12''" "asc ''3.050''"]
    format_points_trailing_zeros [of "[]" "asc ''000''" "[]" "asc ''7''" "[]"]
    no_points_tail_example
  by (simp add: spec_points_tail_def asc_def)

section \<open>Schedule text\<close>








section \<open>Prerequisites\<close>

lemma digit_not_paren: "is_digit c \<Longrightarrow> c \<noteq> 40 \<and> c \<noteq> 41"
  by (auto simp: is_digit_def nd_starts_def)

lemma in_paren_digits_rx:
  "(g', r) \<in> set (rx_run paren_digits_rx ([], s)) \<longleftrightarrow>
     (\<exists>ds. ds \<noteq> [] \<and> list_all is_digit ds \<and> s = [40] @ ds @ [41] @ r \<and> g' = [ds])"
  unfolding paren_digits_rx_def
  apply (simp only: rcat.simps in_rx_run_RCat in_rx_run_RLit in_rx_run_RPlus in_rx_run_RGrp
      bex_rx_run)
  apply (simp add: asc_def del: rx_run.simps)
  apply (rule iffI)
   apply (elim exE conjE)
   apply (rule_tac x=m in exI)
   apply simp
  apply (elim exE conjE)
  apply hypsubst
  apply (intro exI conjI; (rule refl)?)
    apply simp_all
  done

lemma in_outer_paren_rx:
  "(g', r) \<in> set (rx_run outer_paren_rx ([], s)) \<longleftrightarrow>
     (\<exists>m. m \<noteq> [] \<and> list_all (\<lambda>c. c \<noteq> 40 \<and> c \<noteq> 41) m \<and> s = [40] @ m @ [41] @ r
          \<and> (r = [] \<or> r = [10]) \<and> g' = [m])"
  unfolding outer_paren_rx_def
  apply (simp only: rcat.simps in_rx_run_RCat in_rx_run_RLit in_rx_run_RPlus in_rx_run_RGrp
      in_rx_run_REnd bex_rx_run)
  apply (simp add: asc_def del: rx_run.simps)
  apply (rule iffI)
   apply (elim exE conjE)
   apply (rule_tac x=m in exI)
   apply simp
  apply (elim exE conjE)
  apply hypsubst
  apply (intro exI conjI; (rule refl)?)
    apply simp_all
  done


lemma drop_pair_prefix: "drop_pair s t \<Longrightarrow> drop_pair (p @ s) (p @ t)"
proof (induction rule: drop_pair.induct)
  case (1 m a b)
  from drop_pair.intros[OF 1, of "p @ a" b] show ?case by simp
qed

lemma drop_pair_suffix: "drop_pair s t \<Longrightarrow> drop_pair (s @ q) (t @ q)"
proof (induction rule: drop_pair.induct)
  case (1 m a b)
  from drop_pair.intros[OF 1, of a "b @ q"] show ?case by simp
qed

lemma drop_pairs_prefix: "rtranclp drop_pair s t \<Longrightarrow> rtranclp drop_pair (p @ s) (p @ t)"
  by (induction rule: rtranclp_induct) (auto intro: rtranclp.rtrancl_into_rtrancl drop_pair_prefix)

lemma drop_pairs_suffix: "rtranclp drop_pair s t \<Longrightarrow> rtranclp drop_pair (s @ q) (t @ q)"
  by (induction rule: rtranclp_induct) (auto intro: rtranclp.rtrancl_into_rtrancl drop_pair_suffix)



lemma re_sub_paren_digits:
  "rtranclp drop_pair s (re_sub paren_digits_rx (\<lambda>g. match_group g 1) s)"
proof (induction paren_digits_rx "\<lambda>g::ustr list. match_group g 1" s rule: re_sub.induct)
  case (1 s)
  show ?case
  proof (cases "re_match paren_digits_rx s")
    case None
    show ?thesis
    proof (cases s)
      case Nil
      then show ?thesis using None by (subst re_sub.simps) simp
    next
      case (Cons c cs)
      have "rtranclp drop_pair cs (re_sub paren_digits_rx (\<lambda>g. match_group g 1) cs)"
        using 1(1)[OF None Cons] .
      from drop_pairs_prefix[OF this, of "[c]"] show ?thesis
        using None Cons by (subst re_sub.simps) simp
    qed
  next
    case (Some st)
    obtain g r where st: "st = (g, r)" by (cases st)
    from re_match_Some[OF Some] st have "(g, r) \<in> set (rx_run paren_digits_rx ([], s))" by simp
    then have "\<exists>ds. ds \<noteq> [] \<and> list_all is_digit ds \<and> s = [40] @ ds @ [41] @ r \<and> g = [ds]"
      by (simp only: in_paren_digits_rx)
    then obtain ds where
      ds: "ds \<noteq> []" "list_all is_digit ds" "s = [40] @ ds @ [41] @ r" "g = [ds]"
      by blast
    have short: "length (snd st) < length s" using st ds by simp
    have ih: "rtranclp drop_pair r (re_sub paren_digits_rx (\<lambda>g. match_group g 1) r)"
      using 1(2)[OF Some short] st by simp
    have np: "list_all (\<lambda>c. c \<noteq> 40 \<and> c \<noteq> 41) ds"
      using ds(2) digit_not_paren by (auto simp: list_all_iff)
    have "drop_pair ([] @ [40] @ ds @ [41] @ r) ([] @ ds @ r)"
      by (rule drop_pair.intros[OF np])
    then have step: "drop_pair s (ds @ r)" using ds(3) by simp
    have res: "re_sub paren_digits_rx (\<lambda>g. match_group g 1) s
        = ds @ re_sub paren_digits_rx (\<lambda>g. match_group g 1) r"
      using Some st short ds(4) by (subst re_sub.simps) (simp add: match_group_def)
    from drop_pairs_prefix[OF ih, of ds] step show ?thesis
      unfolding res by (rule converse_rtranclp_into_rtranclp[rotated])
  qed
qed

lemma re_sub_start_outer_paren:
  "rtranclp drop_pair s (re_sub_start outer_paren_rx (\<lambda>g. match_group g 1) s)"
proof (cases "re_match outer_paren_rx s")
  case None
  then show ?thesis by (simp add: re_sub_start_def)
next
  case (Some st)
  obtain g r where st: "st = (g, r)" by (cases st)
  from re_match_Some[OF Some] st have "(g, r) \<in> set (rx_run outer_paren_rx ([], s))" by simp
  then have "\<exists>m. m \<noteq> [] \<and> list_all (\<lambda>c. c \<noteq> 40 \<and> c \<noteq> 41) m \<and> s = [40] @ m @ [41] @ r
          \<and> (r = [] \<or> r = [10]) \<and> g = [m]"
    by (simp only: in_outer_paren_rx)
  then obtain m where
    m: "list_all (\<lambda>c. c \<noteq> 40 \<and> c \<noteq> 41) m" "s = [40] @ m @ [41] @ r" "g = [m]"
    by blast
  have "drop_pair ([] @ [40] @ m @ [41] @ r) ([] @ m @ r)"
    by (rule drop_pair.intros[OF m(1)])
  then have "drop_pair s (m @ r)" using m(2) by simp
  moreover have "re_sub_start outer_paren_rx (\<lambda>g. match_group g 1) s = m @ r"
    using Some st m(3) by (simp add: re_sub_start_def match_group_def)
  ultimately show ?thesis by auto
qed

lemma clean_prereq_drops:
  "\<exists>t. rtranclp drop_pair raw t \<and> clean_prereq raw = py_strip t"
proof -
  let ?a = "re_sub paren_digits_rx (\<lambda>g. match_group g 1) raw"
  let ?b = "re_sub_start outer_paren_rx (\<lambda>g. match_group g 1) ?a"
  have "rtranclp drop_pair raw ?a" by (rule re_sub_paren_digits)
  moreover have "rtranclp drop_pair ?a ?b" by (rule re_sub_start_outer_paren)
  ultimately have "rtranclp drop_pair raw ?b" by (rule rtranclp_trans)
  then show ?thesis unfolding clean_prereq_def by blast
qed
















section \<open>The request cache\<close>

lemma send_request_hit:
  "files w (get_cache_file E d q) = Some c \<Longrightarrow>
   send_request E (Some d) q ae w = (json_loads E c, w)"
  by (simp add: send_request_def)

lemma send_request_posted:
  "(case cache_dir of None \<Rightarrow> None | Some d \<Rightarrow> files w (get_cache_file E d q)) = None \<Longrightarrow>
   posted (snd (send_request E cache_dir q ae w)) = posted w @ [q]"
  by (simp add: send_request_def Let_def split: sum.splits option.splits)

lemma send_request_miss_ok:
  assumes "files w (get_cache_file E d q) = None"
      and "send_request E (Some d) q ae w = (Inr r, w1)"
  shows "w1 = w\<lparr>posted := posted w @ [q],
                 files := (files w)(get_cache_file E d q \<mapsto> json_dumps E r)\<rparr>"
  using assms
  by (auto simp: send_request_def Let_def split: sum.splits if_splits)

lemma send_request_no_cache_files:
  "files (snd (send_request E None q ae w)) = files w"
  by (simp add: send_request_def Let_def split: sum.splits)

lemma send_request_demo:
  "send_request demo_env (Some (asc ''.cache'')) (asc ''Q?a'') False empty_world
  = (Inr (JObj []), empty_world\<lparr>posted := [asc ''Q?a''],
       files := (files empty_world)(asc ''.cache/Q_a_01234567.json'' \<mapsto> asc ''{}'')\<rparr>)"
  by (simp add: send_request_def demo_env_def empty_world_def get_cache_file_def unsafe_char_def
     demo_response_def py_strip_def is_space_def first_line_def asc_def Let_def)

text \<open>
  Claim C6. With a cache directory \<open>d\<close>: when no file is cached for the query \<open>q\<close>, the
  first call of \<open>_send_request\<close> returns \<open>r\<close> and \<open>json.load\<close> reads back what
  \<open>json.dump\<close> wrote for \<open>r\<close>, then the first call has posted exactly one request, and
  a second call with the same query (whatever its \<open>allow_empty\<close>) returns \<open>r\<close> again and
  changes nothing: it posts no request. With no cache directory every call posts its
  request, whatever was posted before, and touches no file.
\<close>

theorem send_request_cache_round_trip:
  "(files w (get_cache_file E d q) = None \<longrightarrow>
    send_request E (Some d) q ae w = (Inr r, w1) \<longrightarrow>
    json_loads E (json_dumps E r) = Inr r \<longrightarrow>
      send_request E (Some d) q ae' w1 = (Inr r, w1) \<and> posted w1 = posted w @ [q])
   \<and> posted (snd (send_request E None q ae w0)) = posted w0 @ [q]
   \<and> files (snd (send_request E None q ae w0)) = files w0"
proof (intro conjI impI)
  assume cold: "files w (get_cache_file E d q) = None"
     and first: "send_request E (Some d) q ae w = (Inr r, w1)"
     and rt: "json_loads E (json_dumps E r) = Inr r"
  from send_request_miss_ok [OF cold first]
  have w1: "w1 = w\<lparr>posted := posted w @ [q],
                 files := (files w)(get_cache_file E d q \<mapsto> json_dumps E r)\<rparr>" .
  then have "files w1 (get_cache_file E d q) = Some (json_dumps E r)" by simp
  from send_request_hit [OF this] rt
  show "send_request E (Some d) q ae' w1 = (Inr r, w1)" by simp
  from w1 show "posted w1 = posted w @ [q]" by simp
next
  show "posted (snd (send_request E None q ae w0)) = posted w0 @ [q]"
    by (rule send_request_posted) simp
next
  show "files (snd (send_request E None q ae w0)) = files w0"
    by (rule send_request_no_cache_files)
qed

theorem send_request_cache_round_trip_witness:
  "send_request demo_env (Some (asc ''.cache'')) (asc ''Q?a'') True
     (snd (send_request demo_env (Some (asc ''.cache'')) (asc ''Q?a'') False empty_world))
   = (Inr (JObj []),
      snd (send_request demo_env (Some (asc ''.cache'')) (asc ''Q?a'') False empty_world))
   \<and> posted (snd (send_request demo_env (Some (asc ''.cache'')) (asc ''Q?a'') False empty_world))
     = [asc ''Q?a'']"
  using send_request_cache_round_trip [of empty_world demo_env "asc ''.cache''" "asc ''Q?a''" False
    "JObj []" "snd (send_request demo_env (Some (asc ''.cache'')) (asc ''Q?a'') False empty_world)" True]
  by (simp add: send_request_demo) (simp add: demo_env_def empty_world_def)

section \<open>The building name\<close>







lemma collapse_ws_keeps: "filter (\<lambda>c. \<not> is_space c) (spec_collapse_ws s) = filter (\<lambda>c. \<not> is_space c) s"
proof (induction s rule: spec_collapse_ws.induct)
  case 1 show ?case by simp
next
  case (2 c cs)
  have "filter (\<lambda>c. \<not> is_space c) (dropWhile is_space cs) = filter (\<lambda>c. \<not> is_space c) cs"
    by (induction cs) auto
  with 2 show ?case by (auto simp: is_space_def)
qed








end
